theory Spec2Isabelle
  imports Main
begin

section \<open>ChatBook: strings, the Segmenter, the Matcher and the Presenter\<close>

text \<open>
  The program is \<^verbatim>\<open>src/chatbook.py\<close>. A Python \<^verbatim>\<open>str\<close> is a sequence of Unicode code
  points and \<^verbatim>\<open>len\<close> counts code points, so a string is modelled as a list of code
  points (natural numbers), not as a list of bytes. Every Python string is such a list;
  the theorems below hold for all lists, and the concrete examples use code points that
  Python has. Python integers are \<^typ>\<open>int\<close>.
\<close>

type_synonym ustring = "nat list"

definition py_len :: "ustring \<Rightarrow> int" where
  "py_len s = int (length s)"

text \<open>
  \<^verbatim>\<open>s[:n]\<close>: a non-negative bound keeps the first \<open>n\<close> code points, a negative one
  drops the last \<open>-n\<close>.
\<close>

definition slice_to :: "ustring \<Rightarrow> int \<Rightarrow> ustring" where
  "slice_to s n = (if 0 \<le> n then take (nat n) s else take (nat (py_len s + n)) s)"

subsection \<open>Whitespace and \<^verbatim>\<open>str.strip\<close>\<close>

text \<open>
  The code points for which \<^verbatim>\<open>str.isspace\<close> holds; \<^verbatim>\<open>str.strip()\<close> and
  \<^verbatim>\<open>str.split()\<close> without arguments use the same set.
\<close>

definition isspace :: "nat \<Rightarrow> bool" where
  "isspace c \<longleftrightarrow>
     (9 \<le> c \<and> c \<le> 13) \<or> (28 \<le> c \<and> c \<le> 32) \<or> c = 133 \<or> c = 160 \<or> c = 5760 \<or>
     (8192 \<le> c \<and> c \<le> 8202) \<or> c = 8232 \<or> c = 8233 \<or> c = 8239 \<or> c = 8287 \<or>
     c = 12288"

definition strip_with :: "(nat \<Rightarrow> bool) \<Rightarrow> ustring \<Rightarrow> ustring" where
  "strip_with P s = rev (dropWhile P (rev (dropWhile P s)))"

definition strip :: "ustring \<Rightarrow> ustring" where
  "strip s = strip_with isspace s"

subsection \<open>Presenter: \<^verbatim>\<open>format_answer\<close>\<close>

text \<open>The truncation marker \<^verbatim>\<open>"\n\n[... <tekst obrezan> ...]"\<close>, 25 code points.\<close>

definition truncation_marker :: ustring where
  "truncation_marker =
     [10, 10, 91, 46, 46, 46, 32, 1090, 1077, 1082, 1089, 1090, 32,
      1086, 1073, 1088, 1077, 1079, 1072, 1085, 32, 46, 46, 46, 93]"

definition format_answer :: "ustring \<Rightarrow> int \<Rightarrow> ustring" where
  "format_answer answer_text max_display_length =
     (if py_len answer_text \<le> max_display_length then answer_text
      else slice_to answer_text max_display_length @ truncation_marker)"

subsection \<open>Matcher: \<^verbatim>\<open>find_answer\<close>\<close>

text \<open>
  \<^verbatim>\<open>str.lower\<close> is Python's full Unicode lower-casing, which is not part of the
  repository: every definition that calls it takes it as the parameter \<open>lower\<close>, and
  the theorems hold for every such function. \<open>lower_ascii\<close> is what \<^verbatim>\<open>str.lower\<close>
  computes on strings of ASCII code points; the concrete examples use it on such strings.
\<close>

definition lower_ascii :: "ustring \<Rightarrow> ustring" where
  "lower_ascii s = map (\<lambda>c. if 65 \<le> c \<and> c \<le> 90 then c + 32 else c) s"

text \<open>\<^verbatim>\<open>str.split()\<close>: the maximal runs of non-whitespace code points, in order.\<close>

fun split_ws_from :: "ustring \<Rightarrow> ustring \<Rightarrow> ustring list" where
  "split_ws_from cur [] = (if cur = [] then [] else [cur])"
| "split_ws_from cur (c # cs) =
     (if isspace c then (if cur = [] then split_ws_from [] cs else cur # split_ws_from [] cs)
      else split_ws_from (cur @ [c]) cs)"

definition split_ws :: "ustring \<Rightarrow> ustring list" where
  "split_ws s = split_ws_from [] s"

text \<open>The characters of \<^verbatim>\<open>'.,!?;:()[]{}"\''\<close>.\<close>

definition punctuation :: "nat list" where
  "punctuation = [46, 44, 33, 63, 59, 58, 40, 41, 91, 93, 123, 125, 34, 39]"

definition strip_punct :: "ustring \<Rightarrow> ustring" where
  "strip_punct w = strip_with (\<lambda>c. c \<in> set punctuation) w"

text \<open>\<^verbatim>\<open>word in part_lower\<close>: the word occurs as a contiguous substring.\<close>

fun starts_with :: "ustring \<Rightarrow> ustring \<Rightarrow> bool" where
  "starts_with s [] = True"
| "starts_with [] (x # w) = False"
| "starts_with (c # s) (x # w) = (c = x \<and> starts_with s w)"

fun py_in :: "ustring \<Rightarrow> ustring \<Rightarrow> bool" where
  "py_in w [] = (w = [])"
| "py_in w (c # s) = (starts_with (c # s) w \<or> py_in w s)"

definition question_words :: "(ustring \<Rightarrow> ustring) \<Rightarrow> ustring \<Rightarrow> ustring list" where
  "question_words lower question =
     (let question_lower = lower question
      in map strip_punct
           (filter (\<lambda>word. 2 < py_len (strip_punct word)) (split_ws question_lower)))"

text \<open>The inner loop over \<open>question_words\<close>, with the running \<open>score\<close>.\<close>

fun chunk_score :: "ustring list \<Rightarrow> ustring \<Rightarrow> int \<Rightarrow> int" where
  "chunk_score [] part_lower score = score"
| "chunk_score (word # ws) part_lower score =
     chunk_score ws part_lower (if py_in word part_lower then score + 1 else score)"

text \<open>The outer loop over \<open>text_parts\<close>, with the state \<open>(best_match, best_score)\<close>.\<close>

fun scan_parts ::
  "(ustring \<Rightarrow> ustring) \<Rightarrow> ustring list \<Rightarrow> ustring list \<Rightarrow> ustring \<times> int \<Rightarrow> ustring \<times> int"
where
  "scan_parts lower qw [] st = st"
| "scan_parts lower qw (part # rest) (best_match, best_score) =
     (let score = chunk_score qw (lower part) 0
      in if best_score < score then scan_parts lower qw rest (part, score)
         else scan_parts lower qw rest (best_match, best_score))"

datatype py_error = IndexError

definition no_keywords_message :: ustring where
  "no_keywords_message =
     [1053, 1077, 32, 1091, 1076, 1072, 1083, 1086, 1089, 1100, 32, 1086, 1087, 1088, 1077,
      1076, 1077, 1083, 1080, 1090, 1100, 32, 1082, 1083, 1102, 1095, 1077, 1074, 1099, 1077,
      32, 1089, 1083, 1086, 1074, 1072, 32, 1074, 32, 1074, 1086, 1087, 1088, 1086, 1089,
      1077, 46]"

definition no_match_message :: ustring where
  "no_match_message =
     [1053, 1077, 32, 1085, 1072, 1081, 1076, 1077, 1085, 1086, 32, 1090, 1086, 1095, 1085,
      1086, 1075, 1086, 32, 1089, 1086, 1074, 1087, 1072, 1076, 1077, 1085, 1080, 1103, 46,
      32, 1042, 1086, 1090, 32, 1085, 1072, 1095, 1072, 1083, 1086, 32, 1090, 1077, 1082,
      1089, 1090, 1072, 58, 10]"

text \<open>
  \<^verbatim>\<open>text_parts[0]\<close> raises \<^verbatim>\<open>IndexError\<close> on an empty list; it is only evaluated when
  the best score is 0.
\<close>

definition find_answer ::
  "(ustring \<Rightarrow> ustring) \<Rightarrow> ustring \<Rightarrow> ustring list \<Rightarrow> py_error + ustring \<times> int"
where
  "find_answer lower question text_parts =
     (let qw = question_words lower question
      in if qw = [] then Inr (no_keywords_message, 0)
         else (case scan_parts lower qw text_parts ([], 0) of
                 (best_match, best_score) \<Rightarrow>
                   if best_score = 0
                   then (case text_parts of
                           [] \<Rightarrow> Inl IndexError
                         | first # _ \<Rightarrow> Inr (no_match_message @ slice_to first 500, 0))
                   else Inr (best_match, best_score)))"

text \<open>
  The score in the words of the specification: the keywords of a question form a set,
  and the score of a chunk is the number of keywords in that set that occur in the
  lower-cased chunk.
\<close>

definition spec_keywords :: "(ustring \<Rightarrow> ustring) \<Rightarrow> ustring \<Rightarrow> ustring set" where
  "spec_keywords lower question =
     strip_punct ` {t \<in> set (split_ws (lower question)). 2 < length (strip_punct t)}"

definition spec_score :: "(ustring \<Rightarrow> ustring) \<Rightarrow> ustring \<Rightarrow> ustring \<Rightarrow> int" where
  "spec_score lower question chunk =
     int (card {k \<in> spec_keywords lower question. py_in k (lower chunk)})"

subsection \<open>Segmenter: \<^verbatim>\<open>split_text\<close>\<close>

text \<open>
  \<^verbatim>\<open>text.split('\n\n')\<close>: the separator is searched from the left and occurrences do
  not overlap; the result always has at least one element.
\<close>

fun split_nn_from :: "ustring \<Rightarrow> ustring \<Rightarrow> ustring list" where
  "split_nn_from cur [] = [cur]"
| "split_nn_from cur [c] = [cur @ [c]]"
| "split_nn_from cur (c # d # rest) =
     (if c = 10 \<and> d = 10 then cur # split_nn_from [] rest
      else split_nn_from (cur @ [c]) (d # rest))"

definition split_nn :: "ustring \<Rightarrow> ustring list" where
  "split_nn s = split_nn_from [] s"

text \<open>\<^verbatim>\<open>parts = [part.strip() for part in text.split('\n\n') if part.strip()]\<close>\<close>

definition paragraphs :: "ustring \<Rightarrow> ustring list" where
  "paragraphs text = map strip (filter (\<lambda>part. strip part \<noteq> []) (split_nn text))"

text \<open>\<^verbatim>\<open>char in '.!?'\<close>\<close>

definition is_terminator :: "nat \<Rightarrow> bool" where
  "is_terminator c \<longleftrightarrow> c = 46 \<or> c = 33 \<or> c = 63"

text \<open>
  The loop over the characters of an oversized part, with the state
  \<open>(sentences, current_sentence)\<close>, and the remainder appended after the loop.
\<close>

fun sentence_loop :: "ustring \<Rightarrow> ustring list \<times> ustring \<Rightarrow> ustring list \<times> ustring" where
  "sentence_loop [] st = st"
| "sentence_loop (c # cs) (sentences, current_sentence) =
     (if is_terminator c
      then sentence_loop cs (sentences @ [strip (current_sentence @ [c])], [])
      else sentence_loop cs (sentences, current_sentence @ [c]))"

definition split_sentences :: "ustring \<Rightarrow> ustring list" where
  "split_sentences part =
     (case sentence_loop part ([], []) of
        (sentences, current_sentence) \<Rightarrow>
          if strip current_sentence \<noteq> [] then sentences @ [strip current_sentence]
          else sentences)"

text \<open>
  The loop that packs sentences, with the state \<open>(final_parts, current_part)\<close>.
\<close>

fun pack_loop ::
  "int \<Rightarrow> ustring list \<Rightarrow> ustring list \<times> ustring \<Rightarrow> ustring list \<times> ustring"
where
  "pack_loop max_length [] st = st"
| "pack_loop max_length (sentence # rest) (final_parts, current_part) =
     (if py_len current_part + py_len sentence + 1 \<le> max_length
      then (if current_part \<noteq> []
            then pack_loop max_length rest (final_parts, current_part @ [32] @ sentence)
            else pack_loop max_length rest (final_parts, sentence))
      else pack_loop max_length rest
             (if current_part \<noteq> [] then final_parts @ [current_part] else final_parts,
              sentence))"

text \<open>The loop over \<open>parts\<close>, with the state \<open>final_parts\<close>.\<close>

fun segment_loop :: "int \<Rightarrow> ustring list \<Rightarrow> ustring list \<Rightarrow> ustring list" where
  "segment_loop max_length [] final_parts = final_parts"
| "segment_loop max_length (part # rest) final_parts =
     (if py_len part \<le> max_length then segment_loop max_length rest (final_parts @ [part])
      else (case pack_loop max_length (split_sentences part) (final_parts, []) of
              (final_parts', current_part) \<Rightarrow>
                segment_loop max_length rest
                  (if current_part \<noteq> [] then final_parts' @ [current_part]
                   else final_parts')))"

definition split_text :: "ustring \<Rightarrow> int \<Rightarrow> ustring list" where
  "split_text text max_length =
     (let final_parts = segment_loop max_length (paragraphs text) []
      in if final_parts \<noteq> [] then final_parts else [text])"

text \<open>
  The sentence units of a text for a given \<open>max_length\<close>: the sentences into which the
  oversized paragraphs are split.
\<close>

definition sentence_units :: "ustring \<Rightarrow> int \<Rightarrow> ustring list" where
  "sentence_units text max_length =
     concat (map split_sentences
       (filter (\<lambda>part. max_length < py_len part) (paragraphs text)))"

text \<open>
  The non-whitespace code points of a string, in order: what is left of a string when
  whitespace is disregarded.
\<close>

definition ns :: "ustring \<Rightarrow> ustring" where
  "ns s = filter (\<lambda>c. \<not> isspace c) s"

text \<open>A non-empty string that neither starts nor ends with whitespace.\<close>

definition trimmed :: "ustring \<Rightarrow> bool" where
  "trimmed s \<longleftrightarrow> s \<noteq> [] \<and> \<not> isspace (hd s) \<and> \<not> isspace (last s)"

section \<open>Properties of the Presenter\<close>

lemma length_truncation_marker: "length truncation_marker = 25"
  by (simp add: truncation_marker_def)

text \<open>
  C7. A text whose length is at most \<open>max_display_length\<close> is returned unchanged, and so
  formatting it twice gives the same result as formatting it once.
\<close>

theorem format_answer_short_unchanged:
  "py_len x \<le> m \<Longrightarrow>
     format_answer x m = x \<and> format_answer (format_answer x m) m = format_answer x m"
  by (simp add: format_answer_def)

theorem format_answer_short_unchanged_witness:
  "py_len [104, 105] \<le> 1000 \<and> format_answer [104, 105] 1000 = [104, 105] \<and>
   format_answer (format_answer [104, 105] 1000) 1000 = format_answer [104, 105] 1000"
  using format_answer_short_unchanged [of "[104, 105]" 1000]
  by (simp add: py_len_def)

text \<open>
  C9. For a display length \<open>m \<ge> 0\<close> the output is never longer than \<open>m\<close> plus the
  length of the truncation marker, and an input longer than \<open>m\<close> gives exactly its first
  \<open>m\<close> code points followed by the marker.
\<close>

theorem format_answer_length_bound:
  "0 \<le> m \<Longrightarrow>
     py_len (format_answer x m) \<le> m + py_len truncation_marker \<and>
     (m < py_len x \<longrightarrow> format_answer x m = take (nat m) x @ truncation_marker)"
  by (auto simp: format_answer_def slice_to_def py_len_def)

theorem format_answer_length_bound_witness:
  "(0::int) \<le> 2 \<and> py_len (format_answer [97, 98, 99] 2) \<le> 2 + py_len truncation_marker \<and>
   2 < py_len [97, 98, 99] \<and>
   format_answer [97, 98, 99] 2 = [97, 98] @ truncation_marker"
  using format_answer_length_bound [of 2 "[97, 98, 99]"]
  by (simp add: py_len_def)

section \<open>Properties of the Matcher\<close>


lemma spec_keywords_eq: "spec_keywords lower q = set (question_words lower q)"
  by (auto simp: spec_keywords_def question_words_def py_len_def)

lemma spec_score_eq:
  "spec_score lower q chunk =
     int (length (remdups (filter (\<lambda>k. py_in k (lower chunk)) (question_words lower q))))"
proof -
  have "{k \<in> spec_keywords lower q. py_in k (lower chunk)} =
        set (filter (\<lambda>k. py_in k (lower chunk)) (question_words lower q))"
    by (auto simp: spec_keywords_eq)
  then show ?thesis
    by (simp only: spec_score_def card_set)
qed

lemma qw_dogs_dogs:
  "question_words lower_ascii [100, 111, 103, 115, 32, 100, 111, 103, 115] =
     [[100, 111, 103, 115], [100, 111, 103, 115]]"
  by (simp add: question_words_def lower_ascii_def split_ws_def isspace_def strip_punct_def
      strip_with_def punctuation_def py_len_def)

lemma starts_with_iff: "starts_with s w \<longleftrightarrow> (\<exists>b. s = w @ b)"
  by (induction s w rule: starts_with.induct) auto

lemma py_in_iff: "py_in w s \<longleftrightarrow> (\<exists>a b. s = a @ w @ b)"
proof (induction s)
  case Nil
  show ?case by auto
next
  case (Cons c s)
  show ?case
  proof
    assume "py_in w (c # s)"
    then consider "starts_with (c # s) w" | "py_in w s" by auto
    then show "\<exists>a b. c # s = a @ w @ b"
    proof cases
      case 1
      then obtain b where "c # s = w @ b" by (auto simp: starts_with_iff)
      then have "c # s = [] @ w @ b" by simp
      then show ?thesis by blast
    next
      case 2
      then obtain a b where "s = a @ w @ b" using Cons.IH by auto
      then have "c # s = (c # a) @ w @ b" by simp
      then show ?thesis by blast
    qed
  next
    assume "\<exists>a b. c # s = a @ w @ b"
    then obtain a b where ab: "c # s = a @ w @ b" by auto
    show "py_in w (c # s)"
    proof (cases a)
      case Nil
      with ab have "starts_with (c # s) w" by (auto simp: starts_with_iff)
      then show ?thesis by simp
    next
      case (Cons x a')
      with ab have "s = a' @ w @ b" by simp
      then have "py_in w s" using Cons.IH by blast
      then show ?thesis by simp
    qed
  qed
qed

lemma chunk_score_acc: "chunk_score ws p n = n + int (length (filter (\<lambda>k. py_in k p) ws))"
  by (induction ws arbitrary: n) auto

lemma count_filter_sum:
  "int (length (filter P ws)) = (\<Sum>k \<in> {k \<in> set ws. P k}. int (count_list ws k))"
proof -
  have "length (filter P ws) = sum_list (map (\<lambda>k. if P k then 1 else 0) ws)"
    by (induction ws) auto
  also have "\<dots> = (\<Sum>k \<in> set ws. count_list ws k * (if P k then 1 else 0))"
    by (rule sum_list_map_eq_sum_count)
  also have "\<dots> = (\<Sum>k \<in> set ws. if P k then count_list ws k else 0)"
    by (rule sum.cong) auto
  also have "\<dots> = (\<Sum>k \<in> {k \<in> set ws. P k}. count_list ws k)"
    by (simp add: sum.inter_filter)
  finally show ?thesis by simp
qed

lemma distinct_filter_card:
  "distinct ws \<Longrightarrow> length (filter P ws) = card {k \<in> set ws. P k}"
  by (metis distinct_card distinct_filter set_filter)


subsection \<open>C1: what the score counts\<close>

text \<open>
  C1, as stated, says that the score of a chunk is \<open>spec_score\<close>, the number of
  distinct keywords that occur in the lower-cased chunk. The code keeps the keywords in a
  list and adds one for every list element that occurs: for the question \<^verbatim>\<open>"dogs dogs"\<close>
  and the chunk \<^verbatim>\<open>"dogs"\<close> the score is 2, the number of distinct keywords found is 1.
\<close>

theorem chunk_score_distinct_counterexample:
  "chunk_score (question_words lower_ascii [100, 111, 103, 115, 32, 100, 111, 103, 115])
     (lower_ascii [100, 111, 103, 115]) 0
   \<noteq> spec_score lower_ascii [100, 111, 103, 115, 32, 100, 111, 103, 115] [100, 111, 103, 115]"
  by (simp add: spec_score_eq qw_dogs_dogs) (simp add: lower_ascii_def)

text \<open>
  C1, amended. The score of a chunk counts every keyword that occurs in the lower-cased
  chunk as many times as that keyword occurs among the tokens of the question; when the
  keywords of the question are pairwise distinct this is the number of distinct keywords
  found.
\<close>

theorem chunk_score_counts_tokens:
  "chunk_score (question_words lower q) (lower chunk) 0 =
     (\<Sum>k \<in> {k \<in> spec_keywords lower q. py_in k (lower chunk)}.
        int (count_list (question_words lower q) k)) \<and>
   (distinct (question_words lower q) \<longrightarrow>
      chunk_score (question_words lower q) (lower chunk) 0 = spec_score lower q chunk)"
proof
  show "chunk_score (question_words lower q) (lower chunk) 0 =
     (\<Sum>k \<in> {k \<in> spec_keywords lower q. py_in k (lower chunk)}.
        int (count_list (question_words lower q) k))"
    by (simp only: chunk_score_acc spec_keywords_eq count_filter_sum)
  show "distinct (question_words lower q) \<longrightarrow>
      chunk_score (question_words lower q) (lower chunk) 0 = spec_score lower q chunk"
    by (simp add: chunk_score_acc spec_score_def spec_keywords_eq distinct_filter_card)
qed

lemma qw_what: "question_words lower_ascii
     [87, 104, 97, 116, 32, 100, 111, 32, 100, 111, 103, 115, 32, 100, 111, 63] =
   [[119, 104, 97, 116], [100, 111, 103, 115]]"
  by (simp add: question_words_def lower_ascii_def split_ws_def isspace_def strip_punct_def
      strip_with_def punctuation_def py_len_def)

theorem chunk_score_counts_tokens_witness:
  "distinct (question_words lower_ascii
      [87, 104, 97, 116, 32, 100, 111, 32, 100, 111, 103, 115, 32, 100, 111, 63]) \<and>
   spec_score lower_ascii
      [87, 104, 97, 116, 32, 100, 111, 32, 100, 111, 103, 115, 32, 100, 111, 63]
      [68, 111, 103, 115, 32, 97, 114, 101, 32, 98, 105, 103, 46] = 1"
proof -
  have d: "distinct (question_words lower_ascii
      [87, 104, 97, 116, 32, 100, 111, 32, 100, 111, 103, 115, 32, 100, 111, 63])"
    by (simp add: qw_what)
  have s: "chunk_score (question_words lower_ascii
      [87, 104, 97, 116, 32, 100, 111, 32, 100, 111, 103, 115, 32, 100, 111, 63])
      (lower_ascii [68, 111, 103, 115, 32, 97, 114, 101, 32, 98, 105, 103, 46]) 0 = 1"
    by (simp add: qw_what) (simp add: lower_ascii_def)
  from chunk_score_counts_tokens [of lower_ascii
      "[87, 104, 97, 116, 32, 100, 111, 32, 100, 111, 103, 115, 32, 100, 111, 63]"
      "[68, 111, 103, 115, 32, 97, 114, 101, 32, 98, 105, 103, 46]"] d s
  show ?thesis by simp
qed

subsection \<open>C4: the first chunk with the maximal score wins\<close>

lemma scan_parts_keep:
  "\<forall>p \<in> set parts. chunk_score qw (lower p) 0 \<le> bs \<Longrightarrow>
     scan_parts lower qw parts (bm, bs) = (bm, bs)"
  by (induction parts) auto

lemma scan_parts_first_max:
  "\<exists>p \<in> set parts. bs < chunk_score qw (lower p) 0 \<Longrightarrow>
   \<exists>pre p post. parts = pre @ p # post \<and>
     scan_parts lower qw parts (bm, bs) = (p, chunk_score qw (lower p) 0) \<and>
     bs < chunk_score qw (lower p) 0 \<and>
     (\<forall>x \<in> set pre. chunk_score qw (lower x) 0 < chunk_score qw (lower p) 0) \<and>
     (\<forall>x \<in> set post. chunk_score qw (lower x) 0 \<le> chunk_score qw (lower p) 0)"
proof (induction parts arbitrary: bm bs)
  case Nil
  then show ?case by simp
next
  case (Cons part rest)
  let ?sc = "\<lambda>x. chunk_score qw (lower x) 0"
  show ?case
  proof (cases "bs < ?sc part")
    case True
    show ?thesis
    proof (cases "\<exists>p \<in> set rest. ?sc part < ?sc p")
      case later: True
      from Cons.IH [OF later, of part] obtain pre p post where
        r: "rest = pre @ p # post"
        and s: "scan_parts lower qw rest (part, ?sc part) = (p, ?sc p)"
        and g: "?sc part < ?sc p"
        and b: "\<forall>x \<in> set pre. ?sc x < ?sc p"
        and a: "\<forall>x \<in> set post. ?sc x \<le> ?sc p"
        by blast
      have 1: "part # rest = (part # pre) @ p # post" using r by simp
      have 2: "scan_parts lower qw (part # rest) (bm, bs) = (p, ?sc p)"
        using True s by simp
      have 3: "bs < ?sc p" using True g by linarith
      have 4: "\<forall>x \<in> set (part # pre). ?sc x < ?sc p" using g b by simp
      from 1 2 3 4 a show ?thesis by blast
    next
      case none: False
      then have le: "\<forall>p \<in> set rest. ?sc p \<le> ?sc part" by auto
      have 1: "part # rest = [] @ part # rest" by simp
      have 2: "scan_parts lower qw (part # rest) (bm, bs) = (part, ?sc part)"
        using True scan_parts_keep [OF le, of part] by simp
      have 4: "\<forall>x \<in> set ([]::ustring list). ?sc x < ?sc part" by simp
      from 1 2 True 4 le show ?thesis by blast
    qed
  next
    case False
    with Cons.prems have later: "\<exists>p \<in> set rest. bs < ?sc p" by auto
    from Cons.IH [OF later, of bm] obtain pre p post where
      r: "rest = pre @ p # post"
      and s: "scan_parts lower qw rest (bm, bs) = (p, ?sc p)"
      and g: "bs < ?sc p"
      and b: "\<forall>x \<in> set pre. ?sc x < ?sc p"
      and a: "\<forall>x \<in> set post. ?sc x \<le> ?sc p"
      by blast
    have 1: "part # rest = (part # pre) @ p # post" using r by simp
    have 2: "scan_parts lower qw (part # rest) (bm, bs) = (p, ?sc p)"
      using False s by simp
    have 4: "\<forall>x \<in> set (part # pre). ?sc x < ?sc p" using False g b by auto
    from 1 2 g 4 a show ?thesis by blast
  qed
qed

lemma chunk_score_pos_iff:
  "0 < chunk_score ws p 0 \<longleftrightarrow> (\<exists>w \<in> set ws. py_in w p)"
  by (simp add: chunk_score_acc filter_empty_conv)

lemma chunk_score_spec_score:
  "distinct (question_words lower q) \<Longrightarrow>
     chunk_score (question_words lower q) (lower x) 0 = spec_score lower q x"
  by (simp add: chunk_score_acc spec_score_def spec_keywords_eq distinct_filter_card)

lemma qw_dogs_dogs_cats:
  "question_words lower_ascii [100, 111, 103, 115, 32, 100, 111, 103, 115, 32, 99, 97, 116, 115] =
     [[100, 111, 103, 115], [100, 111, 103, 115], [99, 97, 116, 115]]"
  by (simp add: question_words_def lower_ascii_def split_ws_def isspace_def strip_punct_def
      strip_with_def punctuation_def py_len_def)

text \<open>
  C4, as stated, is about the score of the specification, the number of distinct keywords
  found. For the question \<^verbatim>\<open>"dogs dogs cats"\<close> and the chunks \<^verbatim>\<open>"cats"\<close>, \<^verbatim>\<open>"dogs"\<close> both
  chunks contain one distinct keyword, so the maximum of that score is 1 and the first
  chunk that attains it is \<^verbatim>\<open>"cats"\<close>; the Matcher counts the repeated keyword twice and
  returns the later chunk \<^verbatim>\<open>"dogs"\<close> with the score 2.
\<close>

theorem find_answer_first_max_counterexample:
  "question_words lower_ascii [100, 111, 103, 115, 32, 100, 111, 103, 115, 32, 99, 97, 116, 115] \<noteq> [] \<and>
   spec_score lower_ascii [100, 111, 103, 115, 32, 100, 111, 103, 115, 32, 99, 97, 116, 115] [99, 97, 116, 115] = 1 \<and>
   spec_score lower_ascii [100, 111, 103, 115, 32, 100, 111, 103, 115, 32, 99, 97, 116, 115] [100, 111, 103, 115] = 1 \<and>
   find_answer lower_ascii [100, 111, 103, 115, 32, 100, 111, 103, 115, 32, 99, 97, 116, 115] [[99, 97, 116, 115], [100, 111, 103, 115]] = Inr ([100, 111, 103, 115], 2)"
proof -
  have 1: "question_words lower_ascii [100, 111, 103, 115, 32, 100, 111, 103, 115, 32, 99, 97, 116, 115] \<noteq> []"
    by (simp add: qw_dogs_dogs_cats)
  have 2: "spec_score lower_ascii [100, 111, 103, 115, 32, 100, 111, 103, 115, 32, 99, 97, 116, 115] [99, 97, 116, 115] = 1"
    by (simp add: spec_score_eq qw_dogs_dogs_cats) (simp add: lower_ascii_def)
  have 3: "spec_score lower_ascii [100, 111, 103, 115, 32, 100, 111, 103, 115, 32, 99, 97, 116, 115] [100, 111, 103, 115] = 1"
    by (simp add: spec_score_eq qw_dogs_dogs_cats) (simp add: lower_ascii_def)
  have 4: "find_answer lower_ascii [100, 111, 103, 115, 32, 100, 111, 103, 115, 32, 99, 97, 116, 115] [[99, 97, 116, 115], [100, 111, 103, 115]] = Inr ([100, 111, 103, 115], 2)"
    by (simp add: find_answer_def qw_dogs_dogs_cats) (simp add: lower_ascii_def)
  from 1 2 3 4 show ?thesis by blast
qed

text \<open>
  C4, amended. When the question has a keyword and some chunk contains a keyword, the
  Matcher returns a chunk \<open>p\<close> together with its score, where the score is the one the
  Matcher computes (every keyword found counts as many times as it occurs among the
  tokens of the question), every chunk before \<open>p\<close> has a strictly smaller score and every
  chunk after \<open>p\<close> has a score that is at most that of \<open>p\<close>: \<open>p\<close> is the first chunk that
  attains the maximum, and a later chunk with an equal score does not replace it. When
  the keywords of the question are pairwise distinct, the same holds for the number of
  distinct keywords found.
\<close>

theorem find_answer_first_max:
  assumes "question_words lower q \<noteq> []"
    and "\<exists>p \<in> set parts. \<exists>w \<in> set (question_words lower q). py_in w (lower p)"
  shows "\<exists>pre p post. parts = pre @ p # post \<and>
     find_answer lower q parts = Inr (p, chunk_score (question_words lower q) (lower p) 0) \<and>
     0 < chunk_score (question_words lower q) (lower p) 0 \<and>
     (\<forall>x \<in> set pre. chunk_score (question_words lower q) (lower x) 0
                       < chunk_score (question_words lower q) (lower p) 0) \<and>
     (\<forall>x \<in> set post. chunk_score (question_words lower q) (lower x) 0
                       \<le> chunk_score (question_words lower q) (lower p) 0) \<and>
     (distinct (question_words lower q) \<longrightarrow>
        find_answer lower q parts = Inr (p, spec_score lower q p) \<and>
        0 < spec_score lower q p \<and>
        (\<forall>x \<in> set pre. spec_score lower q x < spec_score lower q p) \<and>
        (\<forall>x \<in> set post. spec_score lower q x \<le> spec_score lower q p))"
proof -
  let ?qw = "question_words lower q"
  from assms(2) have "\<exists>p \<in> set parts. 0 < chunk_score ?qw (lower p) 0"
    by (simp add: chunk_score_pos_iff)
  from scan_parts_first_max [OF this, of "[]"] obtain pre p post where
    r: "parts = pre @ p # post"
    and s: "scan_parts lower ?qw parts ([], 0) = (p, chunk_score ?qw (lower p) 0)"
    and g: "0 < chunk_score ?qw (lower p) 0"
    and b: "\<forall>x \<in> set pre. chunk_score ?qw (lower x) 0 < chunk_score ?qw (lower p) 0"
    and a: "\<forall>x \<in> set post. chunk_score ?qw (lower x) 0 \<le> chunk_score ?qw (lower p) 0"
    by blast
  have f: "find_answer lower q parts = Inr (p, chunk_score ?qw (lower p) 0)"
    using assms(1) s g by (simp add: find_answer_def Let_def)
  have d: "distinct ?qw \<longrightarrow>
        find_answer lower q parts = Inr (p, spec_score lower q p) \<and>
        0 < spec_score lower q p \<and>
        (\<forall>x \<in> set pre. spec_score lower q x < spec_score lower q p) \<and>
        (\<forall>x \<in> set post. spec_score lower q x \<le> spec_score lower q p)"
  proof
    assume "distinct ?qw"
    then have e: "\<And>x. chunk_score ?qw (lower x) 0 = spec_score lower q x"
      by (rule chunk_score_spec_score)
    from f g b a show "find_answer lower q parts = Inr (p, spec_score lower q p) \<and>
        0 < spec_score lower q p \<and>
        (\<forall>x \<in> set pre. spec_score lower q x < spec_score lower q p) \<and>
        (\<forall>x \<in> set post. spec_score lower q x \<le> spec_score lower q p)"
      unfolding e by blast
  qed
  from r f g b a d show ?thesis by blast
qed

text \<open>
  The question \<^verbatim>\<open>"What do dogs do?"\<close>, whose keywords are distinct, against the chunks
  \<^verbatim>\<open>"Cats are small."\<close>, \<^verbatim>\<open>"Dogs are big."\<close> and \<^verbatim>\<open>"dogs"\<close>: the second and the third
  chunk both score 1, and the second is returned.
\<close>

lemma find_answer_tie_example:
  "find_answer lower_ascii [87, 104, 97, 116, 32, 100, 111, 32, 100, 111, 103, 115, 32, 100, 111, 63]
     [[67, 97, 116, 115, 32, 97, 114, 101, 32, 115, 109, 97, 108, 108, 46],
      [68, 111, 103, 115, 32, 97, 114, 101, 32, 98, 105, 103, 46], [100, 111, 103, 115]] =
   Inr ([68, 111, 103, 115, 32, 97, 114, 101, 32, 98, 105, 103, 46], 1)"
  by (simp add: find_answer_def qw_what) (simp add: lower_ascii_def)

theorem find_answer_first_max_witness:
  "question_words lower_ascii [87, 104, 97, 116, 32, 100, 111, 32, 100, 111, 103, 115, 32, 100, 111, 63] \<noteq> [] \<and>
   (\<exists>p \<in> set
     [[67, 97, 116, 115, 32, 97, 114, 101, 32, 115, 109, 97, 108, 108, 46],
      [68, 111, 103, 115, 32, 97, 114, 101, 32, 98, 105, 103, 46], [100, 111, 103, 115]].
      \<exists>w \<in> set (question_words lower_ascii [87, 104, 97, 116, 32, 100, 111, 32, 100, 111, 103, 115, 32, 100, 111, 63]).
        py_in w (lower_ascii p)) \<and>
   distinct (question_words lower_ascii [87, 104, 97, 116, 32, 100, 111, 32, 100, 111, 103, 115, 32, 100, 111, 63]) \<and>
   (\<exists>pre p post.
     [[67, 97, 116, 115, 32, 97, 114, 101, 32, 115, 109, 97, 108, 108, 46],
      [68, 111, 103, 115, 32, 97, 114, 101, 32, 98, 105, 103, 46], [100, 111, 103, 115]] = pre @ p # post \<and>
     find_answer lower_ascii [87, 104, 97, 116, 32, 100, 111, 32, 100, 111, 103, 115, 32, 100, 111, 63]
     [[67, 97, 116, 115, 32, 97, 114, 101, 32, 115, 109, 97, 108, 108, 46],
      [68, 111, 103, 115, 32, 97, 114, 101, 32, 98, 105, 103, 46], [100, 111, 103, 115]] = Inr (p, spec_score lower_ascii [87, 104, 97, 116, 32, 100, 111, 32, 100, 111, 103, 115, 32, 100, 111, 63] p) \<and>
     0 < spec_score lower_ascii [87, 104, 97, 116, 32, 100, 111, 32, 100, 111, 103, 115, 32, 100, 111, 63] p \<and>
     (\<forall>x \<in> set pre. spec_score lower_ascii [87, 104, 97, 116, 32, 100, 111, 32, 100, 111, 103, 115, 32, 100, 111, 63] x
        < spec_score lower_ascii [87, 104, 97, 116, 32, 100, 111, 32, 100, 111, 103, 115, 32, 100, 111, 63] p) \<and>
     (\<forall>x \<in> set post. spec_score lower_ascii [87, 104, 97, 116, 32, 100, 111, 32, 100, 111, 103, 115, 32, 100, 111, 63] x
        \<le> spec_score lower_ascii [87, 104, 97, 116, 32, 100, 111, 32, 100, 111, 103, 115, 32, 100, 111, 63] p))"
proof -
  have h1: "question_words lower_ascii [87, 104, 97, 116, 32, 100, 111, 32, 100, 111, 103, 115, 32, 100, 111, 63] \<noteq> []"
    by (simp add: qw_what)
  have h2: "\<exists>p \<in> set
     [[67, 97, 116, 115, 32, 97, 114, 101, 32, 115, 109, 97, 108, 108, 46],
      [68, 111, 103, 115, 32, 97, 114, 101, 32, 98, 105, 103, 46], [100, 111, 103, 115]].
      \<exists>w \<in> set (question_words lower_ascii [87, 104, 97, 116, 32, 100, 111, 32, 100, 111, 103, 115, 32, 100, 111, 63]).
        py_in w (lower_ascii p)"
    by (simp add: qw_what) (simp add: lower_ascii_def)
  have d: "distinct (question_words lower_ascii [87, 104, 97, 116, 32, 100, 111, 32, 100, 111, 103, 115, 32, 100, 111, 63])"
    by (simp add: qw_what)
  from find_answer_first_max [OF h1 h2] h1 h2 d show ?thesis by blast
qed

subsection \<open>C5: the fallback when nothing matches\<close>

lemma chunk_score_none:
  "\<forall>w \<in> set ws. \<not> py_in w p \<Longrightarrow> chunk_score ws p 0 = 0"
  by (simp add: chunk_score_acc filter_False)

text \<open>
  C5. When the question has a keyword, the chunk list is not empty and no chunk contains a
  keyword, the Matcher returns the score 0 and the \<open>no_match_message\<close> followed by the
  first 500 code points of the first chunk.
\<close>

theorem find_answer_no_match:
  assumes "question_words lower q \<noteq> []"
    and "\<forall>p \<in> set (first # rest). \<forall>w \<in> set (question_words lower q). \<not> py_in w (lower p)"
  shows "find_answer lower q (first # rest) = Inr (no_match_message @ take 500 first, 0)"
proof -
  have "\<forall>p \<in> set (first # rest). chunk_score (question_words lower q) (lower p) 0 \<le> 0"
    using assms(2) by (simp add: chunk_score_none)
  then have "scan_parts lower (question_words lower q) (first # rest) ([], 0) = ([], 0)"
    by (rule scan_parts_keep)
  then show ?thesis
    using assms(1) by (simp add: find_answer_def Let_def slice_to_def)
qed

lemma qw_xyz_abc:
  "question_words lower_ascii [120, 121, 122, 32, 97, 98, 99] = [[120, 121, 122], [97, 98, 99]]"
  by (simp add: question_words_def lower_ascii_def split_ws_def isspace_def strip_punct_def
      strip_with_def punctuation_def py_len_def)

text \<open>The question \<^verbatim>\<open>"xyz abc"\<close> against \<^verbatim>\<open>"Cats are small."\<close> and \<^verbatim>\<open>"Dogs are big."\<close>.\<close>

theorem find_answer_no_match_witness:
  "question_words lower_ascii [120, 121, 122, 32, 97, 98, 99] \<noteq> [] \<and>
   find_answer lower_ascii [120, 121, 122, 32, 97, 98, 99]
     [[67, 97, 116, 115, 32, 97, 114, 101, 32, 115, 109, 97, 108, 108, 46],
      [68, 111, 103, 115, 32, 97, 114, 101, 32, 98, 105, 103, 46]] =
   Inr (no_match_message @ [67, 97, 116, 115, 32, 97, 114, 101, 32, 115, 109, 97, 108, 108, 46], 0)"
proof -
  have h1: "question_words lower_ascii [120, 121, 122, 32, 97, 98, 99] \<noteq> []"
    by (simp add: qw_xyz_abc)
  have h2: "\<forall>p \<in> set ([67, 97, 116, 115, 32, 97, 114, 101, 32, 115, 109, 97, 108, 108, 46] #
       [[68, 111, 103, 115, 32, 97, 114, 101, 32, 98, 105, 103, 46]]).
      \<forall>w \<in> set (question_words lower_ascii [120, 121, 122, 32, 97, 98, 99]). \<not> py_in w (lower_ascii p)"
    by (simp add: qw_xyz_abc) (simp add: lower_ascii_def)
  from find_answer_no_match [OF h1 h2] h1 h2 show ?thesis by simp
qed

subsection \<open>C8: a non-empty chunk list is enough for the Matcher to return\<close>

text \<open>
  C8. With a non-empty chunk list the Matcher returns a result for every question: the
  \<^verbatim>\<open>IndexError\<close> of \<^verbatim>\<open>text_parts[0]\<close> cannot occur.
\<close>

theorem find_answer_returns:
  "text_parts \<noteq> [] \<Longrightarrow> \<exists>r. find_answer lower question text_parts = Inr r"
  by (cases text_parts)
     (auto simp: find_answer_def Let_def split: prod.splits list.splits)


text \<open>
  With an empty chunk list and a question that has a keyword, the fallback does raise.
\<close>

lemma find_answer_empty_parts:
  "find_answer lower_ascii [120, 121, 122, 32, 97, 98, 99] [] = Inl IndexError"
  by (simp add: find_answer_def qw_xyz_abc)

theorem find_answer_returns_witness:
  "[[67, 97, 116, 115]] \<noteq> ([]::ustring list) \<and>
   (\<exists>r. find_answer lower_ascii [120, 121, 122, 32, 97, 98, 99] [[67, 97, 116, 115]] = Inr r)"
  using find_answer_returns [of "[[67, 97, 116, 115]]" lower_ascii "[120, 121, 122, 32, 97, 98, 99]"]
  by simp

section \<open>Properties of the Segmenter\<close>



subsection \<open>Whitespace, stripping and the non-whitespace content\<close>

lemma ns_append: "ns (a @ b) = ns a @ ns b"
  by (simp add: ns_def)

lemma ns_Nil: "ns [] = []"
  by (simp add: ns_def)

lemma ns_empty_iff: "ns s = [] \<longleftrightarrow> (\<forall>c \<in> set s. isspace c)"
  by (auto simp: ns_def filter_empty_conv)

lemma isspace_10: "isspace 10" by (simp add: isspace_def)
lemma isspace_32: "isspace 32" by (simp add: isspace_def)

lemma terminator_not_space: "is_terminator c \<Longrightarrow> \<not> isspace c"
  by (auto simp: is_terminator_def isspace_def)

subsection \<open>Each stage keeps the non-whitespace content\<close>

lemma ns_split_nn_from: "ns (concat (split_nn_from cur s)) = ns (cur @ s)"
  by (induction cur s rule: split_nn_from.induct) (auto simp: isspace_10 ns_def)

lemma ns_dropWhile: "ns (dropWhile isspace s) = ns s"
  by (induction s) (auto simp: ns_def)

lemma ns_rev: "ns (rev s) = rev (ns s)"
  by (simp add: ns_def rev_filter)

lemma ns_strip: "ns (strip s) = ns s"
  by (simp add: strip_def strip_with_def ns_rev ns_dropWhile)

lemma strip_empty_iff: "strip s = [] \<longleftrightarrow> (\<forall>c \<in> set s. isspace c)"
proof
  assume "strip s = []"
  then have "ns s = []" using ns_strip [of s] by (simp add: ns_Nil)
  then show "\<forall>c \<in> set s. isspace c" by (simp add: ns_empty_iff)
next
  assume "\<forall>c \<in> set s. isspace c"
  then have d: "dropWhile isspace s = []" by (simp only: dropWhile_eq_Nil_conv)
  show "strip s = []" unfolding strip_def strip_with_def d by simp
qed

lemma ns_paragraph_list:
  "ns (concat (map strip (filter (\<lambda>part. strip part \<noteq> []) xs))) = ns (concat xs)"
proof (induction xs)
  case Nil
  show ?case by simp
next
  case (Cons x xs)
  show ?case
  proof (cases "strip x = []")
    case True
    then have "ns x = []" by (simp add: strip_empty_iff ns_empty_iff)
    with True Cons.IH show ?thesis by (simp add: ns_append)
  next
    case False
    with Cons.IH show ?thesis by (simp add: ns_append ns_strip)
  qed
qed

lemma ns_paragraphs: "ns (concat (paragraphs text)) = ns text"
  by (simp add: paragraphs_def split_nn_def ns_paragraph_list ns_split_nn_from)

lemma ns_sentence_loop:
  "sentence_loop part (sents, cur) = (sents', cur') \<Longrightarrow>
     ns (concat sents') @ ns cur' = ns (concat sents) @ ns cur @ ns part"
proof (induction part arbitrary: sents cur)
  case Nil
  then show ?case by (simp add: ns_Nil)
next
  case (Cons c cs)
  show ?case
  proof (cases "is_terminator c")
    case True
    with Cons.prems have "sentence_loop cs (sents @ [strip (cur @ [c])], []) = (sents', cur')"
      by simp
    from Cons.IH [OF this] show ?thesis
      by (simp add: ns_append ns_strip ns_Nil) (simp add: ns_def)
  next
    case False
    with Cons.prems have "sentence_loop cs (sents, cur @ [c]) = (sents', cur')"
      by simp
    from Cons.IH [OF this] show ?thesis
      by (simp add: ns_append) (simp add: ns_def)
  qed
qed

lemma ns_split_sentences: "ns (concat (split_sentences part)) = ns part"
proof -
  obtain sents cur where l: "sentence_loop part ([], []) = (sents, cur)"
    by (cases "sentence_loop part ([], [])") auto
  from ns_sentence_loop [OF l] have e: "ns (concat sents) @ ns cur = ns part"
    by (simp add: ns_Nil)
  show ?thesis
  proof (cases "strip cur = []")
    case True
    then have "ns cur = []" by (simp add: strip_empty_iff ns_empty_iff)
    with True l e show ?thesis by (simp add: split_sentences_def)
  next
    case False
    with l e show ?thesis by (simp add: split_sentences_def ns_append ns_strip)
  qed
qed

lemma ns_pack_loop:
  "pack_loop L ss (fp, cur) = (fp', cur') \<Longrightarrow>
     ns (concat fp') @ ns cur' = ns (concat fp) @ ns cur @ ns (concat ss)"
proof (induction ss arbitrary: fp cur)
  case Nil
  then show ?case by (simp add: ns_Nil)
next
  case (Cons s ss)
  consider (join) "py_len cur + py_len s + 1 \<le> L" "cur \<noteq> []"
    | (start) "py_len cur + py_len s + 1 \<le> L" "cur = []"
    | (flush) "\<not> py_len cur + py_len s + 1 \<le> L" "cur \<noteq> []"
    | (over) "\<not> py_len cur + py_len s + 1 \<le> L" "cur = []"
    by blast
  then show ?case
  proof cases
    case join
    with Cons.prems have "pack_loop L ss (fp, cur @ [32] @ s) = (fp', cur')" by simp
    from Cons.IH [OF this] show ?thesis
      by (simp add: ns_append) (simp add: ns_def isspace_32)
  next
    case start
    with Cons.prems have "pack_loop L ss (fp, s) = (fp', cur')" by simp
    from Cons.IH [OF this] start show ?thesis
      by (simp add: ns_append ns_Nil)
  next
    case flush
    with Cons.prems have "pack_loop L ss (fp @ [cur], s) = (fp', cur')" by simp
    from Cons.IH [OF this] show ?thesis
      by (simp add: ns_append)
  next
    case over
    with Cons.prems have "pack_loop L ss (fp, s) = (fp', cur')" by simp
    from Cons.IH [OF this] over show ?thesis
      by (simp add: ns_append ns_Nil)
  qed
qed

lemma ns_segment_loop:
  "ns (concat (segment_loop L parts fp)) = ns (concat fp) @ ns (concat parts)"
proof (induction parts arbitrary: fp)
  case Nil
  show ?case by (simp add: ns_Nil)
next
  case (Cons part rest)
  show ?case
  proof (cases "py_len part \<le> L")
    case True
    then show ?thesis by (simp add: Cons.IH ns_append)
  next
    case False
    obtain fp' cur where p: "pack_loop L (split_sentences part) (fp, []) = (fp', cur)"
      by (cases "pack_loop L (split_sentences part) (fp, [])") auto
    from ns_pack_loop [OF p] have e: "ns (concat fp') @ ns cur = ns (concat fp) @ ns part"
      by (simp add: ns_Nil ns_split_sentences)
    have "ns (concat (if cur \<noteq> [] then fp' @ [cur] else fp')) = ns (concat fp') @ ns cur"
      by (simp add: ns_append ns_Nil)
    with e False p show ?thesis by (simp add: Cons.IH ns_append)
  qed
qed




subsection \<open>Invariants of the packing loops\<close>

lemma dropWhile_hd: "xs \<noteq> [] \<Longrightarrow> \<not> P (hd xs) \<Longrightarrow> dropWhile P xs = xs"
  by (cases xs) auto

lemma strip_trimmed: "trimmed s \<Longrightarrow> strip s = s"
proof -
  assume t: "trimmed s"
  then have 1: "dropWhile isspace s = s"
    by (simp add: trimmed_def dropWhile_hd)
  from t have "rev s \<noteq> []" "\<not> isspace (hd (rev s))"
    by (simp_all add: trimmed_def hd_rev)
  then have 2: "dropWhile isspace (rev s) = rev s"
    by (rule dropWhile_hd)
  show ?thesis by (simp add: strip_def strip_with_def 1 2)
qed

lemma trimmed_strip: "strip s \<noteq> [] \<Longrightarrow> trimmed (strip s)"
proof -
  define ys where "ys = dropWhile isspace s"
  define zs where "zs = dropWhile isspace (rev ys)"
  assume "strip s \<noteq> []"
  then have z: "zs \<noteq> []" by (simp add: strip_def strip_with_def zs_def ys_def)
  then have y: "ys \<noteq> []" by (auto simp: zs_def)
  have e: "strip s = rev zs" by (simp add: strip_def strip_with_def zs_def ys_def)
  have "\<not> isspace (hd zs)" using z unfolding zs_def by (rule hd_dropWhile)
  then have l: "\<not> isspace (last (rev zs))" using z by (simp add: last_rev)
  have "rev ys = takeWhile isspace (rev ys) @ zs" by (simp add: zs_def)
  then have "last (rev ys) = last (takeWhile isspace (rev ys) @ zs)" by simp
  also have "\<dots> = last zs" using z by simp
  finally have "last zs = hd ys" using y by (simp add: last_rev)
  moreover have "\<not> isspace (hd ys)" using y unfolding ys_def by (rule hd_dropWhile)
  ultimately have h: "\<not> isspace (hd (rev zs))" using z by (simp add: hd_rev)
  from z l h show ?thesis by (simp add: trimmed_def e)
qed

lemma trimmed_join: "trimmed a \<Longrightarrow> trimmed b \<Longrightarrow> trimmed (a @ [32] @ b)"
  by (simp add: trimmed_def)

lemma paragraphs_trimmed: "p \<in> set (paragraphs text) \<Longrightarrow> trimmed p"
  by (auto simp: paragraphs_def trimmed_strip)

lemma sentence_loop_trimmed:
  "sentence_loop part (sents, cur) = (sents', cur') \<Longrightarrow> \<forall>x \<in> set sents. trimmed x \<Longrightarrow>
     \<forall>x \<in> set sents'. trimmed x"
proof (induction part arbitrary: sents cur)
  case Nil
  then show ?case by simp
next
  case (Cons c cs)
  show ?case
  proof (cases "is_terminator c")
    case True
    then have "strip (cur @ [c]) \<noteq> []"
      by (auto simp: strip_empty_iff terminator_not_space)
    then have t: "\<forall>x \<in> set (sents @ [strip (cur @ [c])]). trimmed x"
      using Cons.prems(2) by (simp add: trimmed_strip)
    from True Cons.prems(1)
    have "sentence_loop cs (sents @ [strip (cur @ [c])], []) = (sents', cur')" by simp
    from Cons.IH [OF this t] show ?thesis .
  next
    case False
    with Cons.prems(1) have "sentence_loop cs (sents, cur @ [c]) = (sents', cur')" by simp
    from Cons.IH [OF this Cons.prems(2)] show ?thesis .
  qed
qed

lemma split_sentences_trimmed: "x \<in> set (split_sentences part) \<Longrightarrow> trimmed x"
proof -
  assume x: "x \<in> set (split_sentences part)"
  obtain sents cur where l: "sentence_loop part ([], []) = (sents, cur)"
    by (cases "sentence_loop part ([], [])") auto
  have "\<forall>x \<in> set sents. trimmed x"
    by (rule sentence_loop_trimmed [OF l]) simp
  with x l show ?thesis
    by (auto simp: split_sentences_def trimmed_strip split: if_splits)
qed

lemma pack_loop_invariant:
  assumes join: "\<And>a b. Q a \<Longrightarrow> Q b \<Longrightarrow> py_len a + py_len b + 1 \<le> L \<Longrightarrow> Q (a @ [32] @ b)"
  shows "pack_loop L ss (fp, cur) = (fp', cur') \<Longrightarrow> \<forall>x \<in> set fp. Q x \<Longrightarrow>
     cur = [] \<or> Q cur \<Longrightarrow> \<forall>s \<in> set ss. Q s \<Longrightarrow>
     (\<forall>x \<in> set fp'. Q x) \<and> (cur' = [] \<or> Q cur')"
proof (induction ss arbitrary: fp cur)
  case Nil
  then show ?case by simp
next
  case (Cons s ss)
  from Cons.prems(4) have qs: "Q s" and rest: "\<forall>s \<in> set ss. Q s" by simp_all
  consider (join) "py_len cur + py_len s + 1 \<le> L" "cur \<noteq> []"
    | (start) "py_len cur + py_len s + 1 \<le> L" "cur = []"
    | (flush) "\<not> py_len cur + py_len s + 1 \<le> L" "cur \<noteq> []"
    | (over) "\<not> py_len cur + py_len s + 1 \<le> L" "cur = []"
    by blast
  then show ?case
  proof cases
    case join
    with Cons.prems(1) have 1: "pack_loop L ss (fp, cur @ [32] @ s) = (fp', cur')" by simp
    from join Cons.prems(3) have "Q cur" by simp
    then have "Q (cur @ [32] @ s)" using qs join(1) by (rule assms)
    then have 3: "cur @ [32] @ s = [] \<or> Q (cur @ [32] @ s)" by blast
    from Cons.IH [OF 1 Cons.prems(2) 3 rest] show ?thesis .
  next
    case start
    with Cons.prems(1) have 1: "pack_loop L ss (fp, s) = (fp', cur')" by simp
    from qs have 3: "s = [] \<or> Q s" by blast
    from Cons.IH [OF 1 Cons.prems(2) 3 rest] show ?thesis .
  next
    case flush
    with Cons.prems(1) have 1: "pack_loop L ss (fp @ [cur], s) = (fp', cur')" by simp
    from flush Cons.prems(2,3) have 2: "\<forall>x \<in> set (fp @ [cur]). Q x" by simp
    from qs have 3: "s = [] \<or> Q s" by blast
    from Cons.IH [OF 1 2 3 rest] show ?thesis .
  next
    case over
    with Cons.prems(1) have 1: "pack_loop L ss (fp, s) = (fp', cur')" by simp
    from qs have 3: "s = [] \<or> Q s" by blast
    from Cons.IH [OF 1 Cons.prems(2) 3 rest] show ?thesis .
  qed
qed

lemma segment_loop_invariant:
  assumes join: "\<And>a b. Q a \<Longrightarrow> Q b \<Longrightarrow> py_len a + py_len b + 1 \<le> L \<Longrightarrow> Q (a @ [32] @ b)"
  shows "\<forall>x \<in> set fp. Q x \<Longrightarrow>
     \<forall>part \<in> set parts. if py_len part \<le> L then Q part
                          else (\<forall>s \<in> set (split_sentences part). Q s) \<Longrightarrow>
     \<forall>x \<in> set (segment_loop L parts fp). Q x"
proof (induction parts arbitrary: fp)
  case Nil
  then show ?case by simp
next
  case (Cons part rest)
  from Cons.prems(2) have r: "\<forall>part \<in> set rest. if py_len part \<le> L then Q part
                          else (\<forall>s \<in> set (split_sentences part). Q s)" by simp
  show ?case
  proof (cases "py_len part \<le> L")
    case True
    with Cons.prems have 1: "\<forall>x \<in> set (fp @ [part]). Q x" by simp
    from Cons.IH [OF 1 r] True show ?thesis by simp
  next
    case False
    obtain fp' cur where p: "pack_loop L (split_sentences part) (fp, []) = (fp', cur)"
      by (cases "pack_loop L (split_sentences part) (fp, [])") auto
    from False Cons.prems(2) have s: "\<forall>s \<in> set (split_sentences part). Q s" by simp
    have "(\<forall>x \<in> set fp'. Q x) \<and> (cur = [] \<or> Q cur)"
      by (rule pack_loop_invariant [where Q = Q, OF join p Cons.prems(1) _ s]) simp_all
    then have 1: "\<forall>x \<in> set (if cur \<noteq> [] then fp' @ [cur] else fp'). Q x" by auto
    from Cons.IH [OF 1 r] False p show ?thesis by simp
  qed
qed

lemma segment_loop_trimmed:
  "x \<in> set (segment_loop L (paragraphs text) []) \<Longrightarrow> trimmed x"
proof -
  assume x: "x \<in> set (segment_loop L (paragraphs text) [])"
  have "\<forall>x \<in> set (segment_loop L (paragraphs text) []). trimmed x"
  proof (rule segment_loop_invariant [where Q = trimmed])
    show "\<And>a b. trimmed a \<Longrightarrow> trimmed b \<Longrightarrow> py_len a + py_len b + 1 \<le> L \<Longrightarrow>
        trimmed (a @ [32] @ b)"
      by (rule trimmed_join)
    show "\<forall>x \<in> set ([]::ustring list). trimmed x" by simp
    show "\<forall>part \<in> set (paragraphs text). if py_len part \<le> L then trimmed part
                          else (\<forall>s \<in> set (split_sentences part). trimmed s)"
      by (simp add: paragraphs_trimmed split_sentences_trimmed)
  qed
  with x show ?thesis by blast
qed

lemma segment_loop_nonempty_iff:
  "segment_loop L (paragraphs text) [] \<noteq> [] \<longleftrightarrow> (\<exists>c \<in> set text. \<not> isspace c)"
proof -
  have e: "ns (concat (segment_loop L (paragraphs text) [])) = ns text"
    by (simp add: ns_segment_loop ns_paragraphs ns_Nil)
  show ?thesis
  proof
    assume n: "segment_loop L (paragraphs text) [] \<noteq> []"
    then obtain x where x: "x \<in> set (segment_loop L (paragraphs text) [])"
      by (cases "segment_loop L (paragraphs text) []") auto
    then have "trimmed x" by (rule segment_loop_trimmed)
    then have "hd x \<in> set x" "\<not> isspace (hd x)" by (simp_all add: trimmed_def)
    then have "ns x \<noteq> []" by (auto simp: ns_empty_iff)
    with x have "ns (concat (segment_loop L (paragraphs text) [])) \<noteq> []"
      by (auto simp: ns_def filter_empty_conv)
    with e show "\<exists>c \<in> set text. \<not> isspace c" by (simp add: ns_empty_iff)
  next
    assume "\<exists>c \<in> set text. \<not> isspace c"
    then have "ns text \<noteq> []" by (simp add: ns_empty_iff)
    with e show "segment_loop L (paragraphs text) [] \<noteq> []" by (auto simp: ns_Nil)
  qed
qed

lemma split_text_cases:
  "split_text text L =
     (if \<exists>c \<in> set text. \<not> isspace c then segment_loop L (paragraphs text) [] else [text])"
  using segment_loop_nonempty_iff [of L "text"] by (simp add: split_text_def Let_def)

lemma sentence_units_iff:
  "c \<in> set (sentence_units text L) \<longleftrightarrow>
     (\<exists>part \<in> set (paragraphs text). L < py_len part \<and> c \<in> set (split_sentences part))"
  by (auto simp: sentence_units_def)

lemma segment_loop_bound:
  "x \<in> set (segment_loop L (paragraphs text) []) \<Longrightarrow>
     py_len x \<le> L \<or> x \<in> set (sentence_units text L)"
proof -
  let ?Q = "\<lambda>x. py_len x \<le> L \<or> x \<in> set (sentence_units text L)"
  assume x: "x \<in> set (segment_loop L (paragraphs text) [])"
  have "\<forall>x \<in> set (segment_loop L (paragraphs text) []). ?Q x"
  proof (rule segment_loop_invariant [where Q = ?Q])
    show "\<And>a b. ?Q a \<Longrightarrow> ?Q b \<Longrightarrow> py_len a + py_len b + 1 \<le> L \<Longrightarrow> ?Q (a @ [32] @ b)"
      by (simp add: py_len_def)
    show "\<forall>x \<in> set ([]::ustring list). ?Q x" by simp
    show "\<forall>part \<in> set (paragraphs text). if py_len part \<le> L then ?Q part
                          else (\<forall>s \<in> set (split_sentences part). ?Q s)"
      by (auto simp: sentence_units_iff)
  qed
  with x show ?thesis by blast
qed

subsection \<open>The claims about the Segmenter\<close>

text \<open>
  Examples: the two-paragraph text \<^verbatim>\<open>"Cats are small.\n\nDogs are big."\<close> with the default
  \<open>max_length\<close>, and the text \<^verbatim>\<open>"a. bbbbbb. c.d.  e"\<close> with \<open>max_length = 4\<close>, whose
  second sentence is longer than 4.
\<close>

lemma split_text_two_paragraphs:
  "split_text

     [67, 97, 116, 115, 32, 97, 114, 101, 32, 115, 109, 97, 108, 108, 46, 10, 10,
      68, 111, 103, 115, 32, 97, 114, 101, 32, 98, 105, 103, 46] 5000 =
   [[67, 97, 116, 115, 32, 97, 114, 101, 32, 115, 109, 97, 108, 108, 46],

     [68, 111, 103, 115, 32, 97, 114, 101, 32, 98, 105, 103, 46]]"
  by (simp add: split_text_def paragraphs_def split_nn_def strip_def strip_with_def
      isspace_def py_len_def)

lemma split_text_packing_example:
  "split_text
     [97, 46, 32, 98, 98, 98, 98, 98, 98, 46, 32, 99, 46, 100, 46, 32, 32, 101] 4 =
   [[97, 46], [98, 98, 98, 98, 98, 98, 46], [99, 46], [100, 46, 32, 101]]"
  by (simp add: split_text_def paragraphs_def split_nn_def strip_def strip_with_def
      isspace_def py_len_def split_sentences_def is_terminator_def)

lemma sentence_units_packing_example:
  "sentence_units
     [97, 46, 32, 98, 98, 98, 98, 98, 98, 46, 32, 99, 46, 100, 46, 32, 32, 101] 4 =
   [[97, 46], [98, 98, 98, 98, 98, 98, 46], [99, 46], [100, 46], [101]]"
  by (simp add: sentence_units_def paragraphs_def split_nn_def strip_def strip_with_def
      isspace_def py_len_def split_sentences_def is_terminator_def)

text \<open>
  C6. For a non-empty text (also one that consists of whitespace only) the Segmenter
  returns at least one chunk.
\<close>

theorem split_text_nonempty: "text \<noteq> [] \<Longrightarrow> split_text text L \<noteq> []"
  by (simp add: split_text_def Let_def)

theorem split_text_nonempty_witness:
  "[32] \<noteq> ([]::ustring) \<and> split_text [32] 5000 \<noteq> []"
  using split_text_nonempty [of "[32]" 5000] by simp

text \<open>
  C3. The chunks, concatenated, have the same non-whitespace code points in the same
  order as the input text: none is dropped, duplicated or moved.
\<close>

theorem split_text_preserves_characters:
  "ns (concat (split_text text L)) = ns text"
  by (simp add: split_text_def Let_def ns_segment_loop ns_paragraphs ns_Nil)

text \<open>
  C10. When the text has a non-whitespace code point, every chunk is non-empty and is its
  own whitespace-stripped form.
\<close>

theorem split_text_chunks_trimmed:
  "\<exists>ch \<in> set text. \<not> isspace ch \<Longrightarrow>
     \<forall>c \<in> set (split_text text L). c \<noteq> [] \<and> strip c = c"
proof
  fix c
  assume "\<exists>ch \<in> set text. \<not> isspace ch" and "c \<in> set (split_text text L)"
  then have "c \<in> set (segment_loop L (paragraphs text) [])"
    by (simp add: split_text_cases)
  then have "trimmed c" by (rule segment_loop_trimmed)
  then show "c \<noteq> [] \<and> strip c = c"
    by (simp add: strip_trimmed) (simp add: trimmed_def)
qed

theorem split_text_chunks_trimmed_witness:
  "(\<exists>ch \<in> set
     [67, 97, 116, 115, 32, 97, 114, 101, 32, 115, 109, 97, 108, 108, 46, 10, 10,
      68, 111, 103, 115, 32, 97, 114, 101, 32, 98, 105, 103, 46]. \<not> isspace ch) \<and>

     [68, 111, 103, 115, 32, 97, 114, 101, 32, 98, 105, 103, 46] \<in> set (split_text

     [67, 97, 116, 115, 32, 97, 114, 101, 32, 115, 109, 97, 108, 108, 46, 10, 10,
      68, 111, 103, 115, 32, 97, 114, 101, 32, 98, 105, 103, 46] 5000) \<and>

     [68, 111, 103, 115, 32, 97, 114, 101, 32, 98, 105, 103, 46] \<noteq> [] \<and>
   strip
     [68, 111, 103, 115, 32, 97, 114, 101, 32, 98, 105, 103, 46] =
     [68, 111, 103, 115, 32, 97, 114, 101, 32, 98, 105, 103, 46]"
proof -
  have h: "\<exists>ch \<in> set
     [67, 97, 116, 115, 32, 97, 114, 101, 32, 115, 109, 97, 108, 108, 46, 10, 10,
      68, 111, 103, 115, 32, 97, 114, 101, 32, 98, 105, 103, 46]. \<not> isspace ch"
    by (simp add: isspace_def)
  have m: "
     [68, 111, 103, 115, 32, 97, 114, 101, 32, 98, 105, 103, 46] \<in> set (split_text

     [67, 97, 116, 115, 32, 97, 114, 101, 32, 115, 109, 97, 108, 108, 46, 10, 10,
      68, 111, 103, 115, 32, 97, 114, 101, 32, 98, 105, 103, 46] 5000)"
    by (simp add: split_text_two_paragraphs)
  from split_text_chunks_trimmed [OF h, of 5000] h m show ?thesis by blast
qed

text \<open>
  C2, amended. Every chunk is at most \<open>max_length\<close> long, unless it is a single sentence
  unit that is itself longer than \<open>max_length\<close>, or the text has no non-whitespace code
  point and the chunk is the whole text, which the Segmenter then returns as its only
  chunk whatever its length.
\<close>

theorem split_text_length_bound:
  "\<forall>c \<in> set (split_text text L).
     py_len c \<le> L \<or> (L < py_len c \<and> c \<in> set (sentence_units text L)) \<or>
     ((\<forall>ch \<in> set text. isspace ch) \<and> c = text)"
proof
  fix c
  assume c: "c \<in> set (split_text text L)"
  show "py_len c \<le> L \<or> (L < py_len c \<and> c \<in> set (sentence_units text L)) \<or>
     ((\<forall>ch \<in> set text. isspace ch) \<and> c = text)"
  proof (cases "\<exists>ch \<in> set text. \<not> isspace ch")
    case True
    with c have "c \<in> set (segment_loop L (paragraphs text) [])"
      by (simp add: split_text_cases)
    then have "py_len c \<le> L \<or> c \<in> set (sentence_units text L)"
      by (rule segment_loop_bound)
    then show ?thesis by auto
  next
    case False
    with c show ?thesis by (simp add: split_text_cases)
  qed
qed

theorem split_text_length_bound_witness:
  "[98, 98, 98, 98, 98, 98, 46] \<in> set (split_text
     [97, 46, 32, 98, 98, 98, 98, 98, 98, 46, 32, 99, 46, 100, 46, 32, 32, 101] 4) \<and>
   4 < py_len [98, 98, 98, 98, 98, 98, 46] \<and>
   [98, 98, 98, 98, 98, 98, 46] \<in> set (sentence_units
     [97, 46, 32, 98, 98, 98, 98, 98, 98, 46, 32, 99, 46, 100, 46, 32, 32, 101] 4)"
proof -
  have m: "[98, 98, 98, 98, 98, 98, 46] \<in> set (split_text
     [97, 46, 32, 98, 98, 98, 98, 98, 98, 46, 32, 99, 46, 100, 46, 32, 32, 101] 4)"
    by (simp add: split_text_packing_example)
  have l: "4 < py_len [98, 98, 98, 98, 98, 98, 46]" by (simp add: py_len_def)
  have w: "\<not> (\<forall>ch \<in> set
     [97, 46, 32, 98, 98, 98, 98, 98, 98, 46, 32, 99, 46, 100, 46, 32, 32, 101]. isspace ch)"
    by (simp add: isspace_def)
  from split_text_length_bound [of
     "[97, 46, 32, 98, 98, 98, 98, 98, 98, 46, 32, 99, 46, 100, 46, 32, 32, 101]" 4] m l w
  show ?thesis by auto
qed

lemma split_text_whitespace_only:
  "\<forall>ch \<in> set text. isspace ch \<Longrightarrow> split_text text L = [text]"
  by (simp add: split_text_cases)

text \<open>
  C2, as stated, fails for a text of whitespace only that is longer than \<open>max_length\<close>:
  \<^verbatim>\<open>split_text("  ", 1)\<close> has no paragraph and no sentence unit, and returns the text
  itself, of length 2.
\<close>

theorem split_text_length_bound_counterexample:
  "\<not> (\<forall>c \<in> set (split_text [32, 32] 1).
        py_len c \<le> 1 \<or> (1 < py_len c \<and> c \<in> set (sentence_units [32, 32] 1)))"
  by (simp add: split_text_def paragraphs_def split_nn_def strip_def strip_with_def
      isspace_def py_len_def sentence_units_def)

end
